theory Spec2Isabelle
  imports Main "HOL-Library.Word" "HOL-Library.Signed_Division"
begin

unbundle bit_operations_syntax

chapter \<open>dwp: Diceware numbers from a secure entropy source\<close>

text \<open>
  The repository holds two variants of one command-line program. \<^verbatim>\<open>dwp.go\<close> draws
  32-bit words from \<^verbatim>\<open>crypto/rand\<close>; the second file draws single bytes from a TPM
  through \<^verbatim>\<open>tpm2.GetRandom\<close>. Both files declare the same function names, so the
  definitions below carry the suffix \<open>_crypto\<close> (for \<^verbatim>\<open>dwp.go\<close>) or \<open>_tpm\<close> where the
  two bodies differ, and are shared where the bodies are the same text.
\<close>

section \<open>Values\<close>

text \<open>
  A \<^verbatim>\<open>byte\<close> is an 8-bit word and an \<^verbatim>\<open>int32\<close> a 32-bit word read in two's complement
  by \<^const>\<open>sint\<close>. Go's \<^verbatim>\<open>int\<close> is taken at its 64-bit width: a value of it is an
  \<^typ>\<open>int\<close>, and arithmetic on it goes through \<open>int_wrap\<close>. An \<^verbatim>\<open>error\<close> is its message.
\<close>

type_synonym byte = "8 word"
type_synonym int32 = "32 word"
type_synonym error = string

definition int_wrap :: "int \<Rightarrow> int" where
  "int_wrap x = (x + 2 ^ 63) mod 2 ^ 64 - 2 ^ 63"

text \<open>
  A call that reads the entropy source either returns, or stops in a run-time panic, or
  is still reading when the replies listed for the source are used up (\<open>Starved\<close>: the
  list is a finite prefix of what the source would answer).
\<close>

datatype 'a outcome = Returns 'a | Panics string | Starved

section \<open>The sampler of the TPM variant\<close>

text \<open>
  \<^verbatim>\<open>tpm2.GetRandom(rwc, 1)\<close> answers with an error or with a byte slice. The handle
  \<^verbatim>\<open>rwc\<close> is the list of the answers still to come. \<^verbatim>\<open>secureRandInt\<close> computes
  \<^verbatim>\<open>maxValid := byte(255 - (255 % uint8(max)))\<close> once (a division by zero when
  \<^verbatim>\<open>uint8(max)\<close> is 0) and then loops: an error is returned with the value 0, a byte at
  or above \<^verbatim>\<open>maxValid\<close> is dropped and the loop draws again, any other byte is returned
  modulo \<^verbatim>\<open>uint8(max)\<close>. Indexing an empty slice with \<^verbatim>\<open>random[0]\<close> panics.
\<close>

datatype reply = GetRandomErr error | GetRandomOk "byte list"

fun secureRandInt_loop :: "byte \<Rightarrow> byte \<Rightarrow> reply list \<Rightarrow> (int32 \<times> error option) outcome \<times> reply list" where
  "secureRandInt_loop maxValid m [] = (Starved, [])"
| "secureRandInt_loop maxValid m (GetRandomErr err # rwc) = (Returns (0, Some err), rwc)"
| "secureRandInt_loop maxValid m (GetRandomOk [] # rwc) = (Panics ''runtime error: index out of range [0] with length 0'', rwc)"
| "secureRandInt_loop maxValid m (GetRandomOk (b # bs) # rwc) =
     (if b \<ge> maxValid then secureRandInt_loop maxValid m rwc
      else (Returns (ucast (b mod m), None), rwc))"

definition secureRandInt_tpm :: "reply list \<Rightarrow> int32 \<Rightarrow> (int32 \<times> error option) outcome \<times> reply list" where
  "secureRandInt_tpm rwc mx =
     (let m = (ucast mx :: byte) in
      if m = 0 then (Panics ''runtime error: integer divide by zero'', rwc)
      else secureRandInt_loop (255 - 255 mod m) m rwc)"

definition one_byte :: "byte \<Rightarrow> reply" where
  "one_byte b = GetRandomOk [b]"

section \<open>The sampler of the crypto/rand variant\<close>

text \<open>
  \<^verbatim>\<open>binary.Read(rand.Reader, binary.BigEndian, &n)\<close> fails or fills \<^verbatim>\<open>n\<close> from four
  bytes, most significant first. The sign bit is masked off and the remainder of Go's
  truncated division by \<^verbatim>\<open>max\<close> is returned; its sign is that of the dividend, which
  the mask has made non-negative. A zero \<^verbatim>\<open>max\<close> is a division by zero after the read.
\<close>

datatype read = ReadErr error | ReadOk byte byte byte byte

definition BigEndian_Uint32 :: "byte \<Rightarrow> byte \<Rightarrow> byte \<Rightarrow> byte \<Rightarrow> int32" where
  "BigEndian_Uint32 b0 b1 b2 b3 =
     push_bit 24 (ucast b0) OR push_bit 16 (ucast b1) OR push_bit 8 (ucast b2) OR ucast b3"

definition masked_mod :: "int32 \<Rightarrow> int32 \<Rightarrow> int32" where
  "masked_mod n mx = word_of_int (sint (n AND 0x7FFFFFFF) smod sint mx)"

fun secureRandInt_crypto :: "read list \<Rightarrow> int32 \<Rightarrow> (int32 \<times> error option) outcome \<times> read list" where
  "secureRandInt_crypto [] mx = (Starved, [])"
| "secureRandInt_crypto (ReadErr err # reader) mx = (Returns (0, Some err), reader)"
| "secureRandInt_crypto (ReadOk b0 b1 b2 b3 # reader) mx =
     (if mx = 0 then (Panics ''runtime error: integer divide by zero'', reader)
      else (Returns (masked_mod (BigEndian_Uint32 b0 b1 b2 b3) mx, None), reader))"

section \<open>generateDicewareNumber\<close>

text \<open>
  The body is the same in both files up to the sampler it calls, which is the first
  argument of the loop here. The loop \<^verbatim>\<open>for i := 0; i < numDice; i++\<close> runs
  \<open>nat numDice\<close> times and does not read \<^verbatim>\<open>i\<close>. The error of a failed draw is wrapped by
  \<^verbatim>\<open>fmt.Errorf\<close> with the verb \<^verbatim>\<open>%v\<close>, which prints its message after the prefix.
\<close>

fun generateDicewareNumber_loop ::
  "('s \<Rightarrow> (int32 \<times> error option) outcome \<times> 's) \<Rightarrow> nat \<Rightarrow> int \<Rightarrow> 's \<Rightarrow> (int \<times> error option) outcome \<times> 's" where
  "generateDicewareNumber_loop sample 0 result s = (Returns (result, None), s)"
| "generateDicewareNumber_loop sample (Suc k) result s =
     (case sample s of
        (Returns (roll, Some err), s') \<Rightarrow>
          (Returns (0, Some (''failed to generate random number: '' @ err)), s')
      | (Returns (roll, None), s') \<Rightarrow>
          generateDicewareNumber_loop sample k (int_wrap (int_wrap (result * 10) + sint (roll + 1))) s'
      | (Panics p, s') \<Rightarrow> (Panics p, s')
      | (Starved, s') \<Rightarrow> (Starved, s'))"

definition generateDicewareNumber_tpm :: "reply list \<Rightarrow> int \<Rightarrow> (int \<times> error option) outcome \<times> reply list" where
  "generateDicewareNumber_tpm rwc numDice =
     generateDicewareNumber_loop (\<lambda>s. secureRandInt_tpm s 6) (nat numDice) 0 rwc"

definition generateDicewareNumber_crypto :: "read list \<Rightarrow> int \<Rightarrow> (int \<times> error option) outcome \<times> read list" where
  "generateDicewareNumber_crypto reader numDice =
     generateDicewareNumber_loop (\<lambda>s. secureRandInt_crypto s 6) (nat numDice) 0 reader"

text \<open>
  Two notions to state what the loop computes. \<open>draws sample s rs s'\<close>: called again and
  again from the source \<open>s\<close>, the function \<open>sample\<close> (the sampler here, the number generator
  further on) returns without error the values \<open>rs\<close>, in this order, and leaves the source
  \<open>s'\<close>. \<open>accumulate rs\<close>: the number that
  \<open>result = result * 10 + (roll + 1)\<close> builds from 0 over the rolls \<open>rs\<close>, on unbounded
  integers.
\<close>

fun draws :: "('s \<Rightarrow> ('a \<times> error option) outcome \<times> 's) \<Rightarrow> 's \<Rightarrow> 'a list \<Rightarrow> 's \<Rightarrow> bool" where
  "draws sample s [] s' = (s' = s)"
| "draws sample s (r # rs) s' =
     (case sample s of
        (Returns (roll, None), t) \<Rightarrow> roll = r \<and> draws sample t rs s'
      | _ \<Rightarrow> False)"

definition accumulate :: "int32 list \<Rightarrow> int" where
  "accumulate rs = foldl (\<lambda>result roll. result * 10 + (sint roll + 1)) 0 rs"

section \<open>loadDictionary\<close>

text \<open>
  \<^verbatim>\<open>strings.Split(line, "\t")\<close> cuts at every separator and always yields at least one
  part.
\<close>

fun Split :: "string \<Rightarrow> char \<Rightarrow> string list" where
  "Split [] sep = [[]]"
| "Split (c # cs) sep =
     (if c = sep then [] # Split cs sep
      else (case Split cs sep of
              [] \<Rightarrow> [[c]]
            | p # ps \<Rightarrow> (c # p) # ps))"

text \<open>
  \<^verbatim>\<open>fmt.Sscanf(parts[0], "%d", &number)\<close>, as the \<^verbatim>\<open>fmt\<close> package of the Go
  distribution scans a \<^verbatim>\<open>%d\<close> into an \<^verbatim>\<open>*int\<close>: leading white space is skipped (a
  newline among it is an error, since newlines must match the format), one sign is
  accepted, then the longest run of decimal digits, which must not be empty; the token
  goes to \<^verbatim>\<open>strconv.ParseInt(tok, 10, 64)\<close>, which fails outside the 64-bit range. Input
  after the token is left unread and is no error. White space is what \<^verbatim>\<open>fmt\<close>'s table
  of \<^verbatim>\<open>White_Space\<close> code points lists; a string here is a list of bytes, so
  \<open>space_rune\<close> gives the length of the UTF-8 encoding of such a code point at the head
  of the string, or 0. \<open>None\<close> stands for any error of the scan. The limit of \<open>2^30\<close>
  runes that \<^verbatim>\<open>fmt\<close> puts on a token without a width is left out: the scanner
  delivers no line that long.
\<close>

definition isSpace_ascii :: "char \<Rightarrow> bool" where
  "isSpace_ascii c = (c \<in> set [CHR 0x09, CHR 0x0B, CHR 0x0C, CHR 0x0D, CHR 0x20])"

fun space_rune :: "string \<Rightarrow> nat" where
  "space_rune [] = 0"
| "space_rune (c # cs) =
     (if isSpace_ascii c then 1
      else if c = CHR 0xC2 then
        (case cs of
           d # _ \<Rightarrow> if d = CHR 0x85 \<or> d = CHR 0xA0 then 2 else 0
         | [] \<Rightarrow> 0)
      else if c = CHR 0xE1 then
        (case cs of
           d # e # _ \<Rightarrow> if d = CHR 0x9A \<and> e = CHR 0x80 then 3 else 0
         | _ \<Rightarrow> 0)
      else if c = CHR 0xE2 then
        (case cs of
           d # e # _ \<Rightarrow>
             if d = CHR 0x80 \<and> ((0x80::nat) \<le> of_char e \<and> of_char e \<le> (0x8A::nat)
                  \<or> e = CHR 0xA8 \<or> e = CHR 0xA9 \<or> e = CHR 0xAF) then 3
             else if d = CHR 0x81 \<and> e = CHR 0x9F then 3
             else 0
         | _ \<Rightarrow> 0)
      else if c = CHR 0xE3 then
        (case cs of
           d # e # _ \<Rightarrow> if d = CHR 0x80 \<and> e = CHR 0x80 then 3 else 0
         | _ \<Rightarrow> 0)
      else 0)"

function SkipSpace :: "string \<Rightarrow> string option" where
  "SkipSpace s =
     (if s = [] then Some []
      else if hd s = CHR 0x0A then None
      else if space_rune s = 0 then Some s
      else SkipSpace (drop (space_rune s) s))"
  by pat_completeness auto
termination
  by (relation "measure length") auto

declare SkipSpace.simps [simp del]

definition isDigit :: "char \<Rightarrow> bool" where
  "isDigit c = (c \<in> set ''0123456789'')"

definition decimal :: "string \<Rightarrow> int" where
  "decimal ds = foldl (\<lambda>a c. 10 * a + (of_char c - 48)) 0 ds"

definition accept_sign :: "string \<Rightarrow> string \<times> string" where
  "accept_sign s =
     (case s of
        [] \<Rightarrow> ([], [])
      | c # cs \<Rightarrow> if c = CHR ''+'' \<or> c = CHR ''-'' then ([c], cs) else ([], s))"

definition Sscanf_d :: "string \<Rightarrow> int option" where
  "Sscanf_d str =
     (case SkipSpace str of
        None \<Rightarrow> None
      | Some s \<Rightarrow>
          (let (sign, rest) = accept_sign s;
               tok = takeWhile isDigit rest;
               i = (if sign = ''-'' then - decimal tok else decimal tok)
           in if tok = [] then None
              else if i < - (2 ^ 63) \<or> 2 ^ 63 \<le> i then None
              else Some i))"

text \<open>
  The file system answers \<^verbatim>\<open>os.Open\<close> with an error or with a file: the bytes that
  reading it yields, and the error that ends the reading when it is not the end of the
  file.

  \<^verbatim>\<open>bufio.NewScanner(file)\<close>, as the \<^verbatim>\<open>bufio\<close> package of the Go distribution scans
  lines: the bytes are cut at every newline, and what follows the last newline is a line
  of its own unless it is empty (\<open>raw_lines\<close>). \<^verbatim>\<open>scanner.Scan()\<close> delivers the lines in
  order, each without one trailing carriage return (\<open>dropCR\<close>). A line has to fit the
  buffer of \<^verbatim>\<open>MaxScanTokenSize\<close> = 64 * 1024 bytes together with the newline that ends it,
  or with room to read on when no newline has come: at a line of 65536 bytes or more
  \<^verbatim>\<open>Scan\<close> stops and \<^verbatim>\<open>scanner.Err()\<close> is \<^verbatim>\<open>ErrTooLong\<close>. Otherwise \<^verbatim>\<open>scanner.Err()\<close>
  is the error that ended the reading, if any. \<open>Scanner data read_err\<close> is the list of
  the texts that \<^verbatim>\<open>scanner.Text()\<close> yields while \<^verbatim>\<open>scanner.Scan()\<close> holds, with
  \<^verbatim>\<open>scanner.Err()\<close>.
\<close>

definition dropCR :: "string \<Rightarrow> string" where
  "dropCR data = (if data \<noteq> [] \<and> last data = CHR 0x0D then butlast data else data)"

definition raw_lines :: "string \<Rightarrow> string list" where
  "raw_lines data =
     (let parts = Split data (CHR 0x0A) in
      if last parts = [] then butlast parts else parts)"

fun Scan_lines :: "string list \<Rightarrow> error option \<Rightarrow> string list \<times> error option" where
  "Scan_lines [] read_err = ([], read_err)"
| "Scan_lines (l # ls) read_err =
     (if length l \<ge> 65536 then ([], Some ''bufio.Scanner: token too long'')
      else (case Scan_lines ls read_err of (tokens, err) \<Rightarrow> (dropCR l # tokens, err)))"

definition Scanner :: "string \<Rightarrow> error option \<Rightarrow> string list \<times> error option" where
  "Scanner data read_err = Scan_lines (raw_lines data) read_err"

text \<open>
  \<^verbatim>\<open>loadDictionary\<close> runs its loop over the lines the scanner delivers and then asks for
  the scanner's error. The returned map is \<open>None\<close> where the Go function returns
  \<^verbatim>\<open>nil\<close>.
\<close>

fun loadDictionary_loop :: "(int \<rightharpoonup> string) \<Rightarrow> string list \<Rightarrow> (int \<rightharpoonup> string)" where
  "loadDictionary_loop dict [] = dict"
| "loadDictionary_loop dict (line # rest) =
     (let parts = Split line (CHR 0x09) in
      if length parts \<ge> 2 then
        (case Sscanf_d (parts ! 0) of
           Some number \<Rightarrow> loadDictionary_loop (dict(number \<mapsto> parts ! 1)) rest
         | None \<Rightarrow> loadDictionary_loop dict rest)
      else loadDictionary_loop dict rest)"

type_synonym files = "string \<Rightarrow> error + string \<times> error option"

definition loadDictionary :: "files \<Rightarrow> string \<Rightarrow> (int \<rightharpoonup> string) option \<times> error option" where
  "loadDictionary fs filename =
     (case fs filename of
        Inl err \<Rightarrow> (None, Some err)
      | Inr (data, read_err) \<Rightarrow>
          (case Scanner data read_err of
             (lines, scan_err) \<Rightarrow>
               (let dict = loadDictionary_loop Map.empty lines in
                case scan_err of
                  Some err \<Rightarrow> (None, Some err)
                | None \<Rightarrow> (Some dict, None))))"

text \<open>
  Three notions to state what the loop does with a line. A line is \<open>malformed\<close> when it
  has fewer than two tab-separated fields or its first field fails the scan.
  \<open>entry line\<close> is the key and the word that a line which is not malformed stores.
  \<open>terminated ls\<close> is the text of the lines \<open>ls\<close>, each ended by a newline.
\<close>

definition malformed :: "string \<Rightarrow> bool" where
  "malformed line =
     (length (Split line (CHR 0x09)) < 2 \<or> Sscanf_d (hd (Split line (CHR 0x09))) = None)"


definition entry :: "string \<Rightarrow> (int \<times> string) option" where
  "entry line =
     (case Split line (CHR 0x09) of
        field # word # others \<Rightarrow> map_option (\<lambda>number. (number, word)) (Sscanf_d field)
      | _ \<Rightarrow> None)"

section \<open>main\<close>

text \<open>
  What a run writes is kept call by call: a \<^verbatim>\<open>Printf\<close> or \<^verbatim>\<open>Fprintf\<close> with its format and
  operands, \<^verbatim>\<open>fmt.Println()\<close>, \<^verbatim>\<open>flag.PrintDefaults()\<close>. A run ends by \<^verbatim>\<open>os.Exit\<close> or by
  returning from \<^verbatim>\<open>main\<close> (exit status 0), or in a panic, or is \<open>Unfinished\<close> when the
  listed replies of the entropy source are used up. The flags are taken as
  \<^verbatim>\<open>flag.Parse()\<close> leaves them.
\<close>

datatype arg = I int | S string

datatype written = Printf string "arg list" | Println | PrintDefaults

datatype ending = Exit int | Panic string | Unfinished

record run =
  stdout :: "written list"
  stderr :: "written list"
  ending :: ending

record flags =
  rolls :: int
  dictFile :: string
  showPassphrase :: bool

record flags_tpm = flags +
  separator :: string

fun Join :: "string list \<Rightarrow> string \<Rightarrow> string" where
  "Join [] sep = []"
| "Join [w] sep = w"
| "Join (w # ws) sep = w @ sep @ Join ws sep"


definition printUsage_tpm :: "string \<Rightarrow> written list" where
  "printUsage_tpm argv0 =
     [Printf (''Usage: %s [-r rolls] [-d dictionary] [-p] [-s separator]'' @ [CHR 0x0A]) [S argv0],
      Printf (''  -r rolls       number of Diceware numbers to generate (default 10)'' @ [CHR 0x0A]) [],
      Printf (''  -d dictionary  path to Diceware dictionary file'' @ [CHR 0x0A]) [],
      Printf (''  -p             output complete passphrase'' @ [CHR 0x0A]) [],
      Printf (''  -s separator   separator for passphrase words (default space)'' @ [CHR 0x0A]) [],
      PrintDefaults]"

text \<open>The statement after the loop, the same in both files up to the separator.\<close>

definition print_passphrase :: "bool \<Rightarrow> string list \<Rightarrow> string \<Rightarrow> written list" where
  "print_passphrase p passphraseWords sep =
     (if p \<and> length passphraseWords > 0
      then [Printf (CHR 0x0A # ''Complete passphrase: %s'' @ [CHR 0x0A]) [S (Join passphraseWords sep)]]
      else [])"

text \<open>
  The loop \<^verbatim>\<open>for i := 0; i < *rolls; i++\<close> of \<^verbatim>\<open>main\<close>, the same in both files up to the
  generator it calls: \<open>k\<close> iterations are left, \<open>i\<close> is the loop variable, \<open>out\<close> what
  has gone to standard output. When no iteration is left the statement after the loop
  runs and \<^verbatim>\<open>main\<close> returns.
\<close>

fun main_loop ::
  "('s \<Rightarrow> (int \<times> error option) outcome \<times> 's) \<Rightarrow> (int \<rightharpoonup> string) option \<Rightarrow> bool \<Rightarrow> string \<Rightarrow>
   nat \<Rightarrow> int \<Rightarrow> 's \<Rightarrow> string list \<Rightarrow> written list \<Rightarrow> run" where
  "main_loop gen dict p sep 0 i s passphraseWords out =
     \<lparr>stdout = out @ print_passphrase p passphraseWords sep, stderr = [], ending = Exit 0\<rparr>"
| "main_loop gen dict p sep (Suc k) i s passphraseWords out =
     (case gen s of
        (Returns (dicewareNumber, Some err), s') \<Rightarrow>
          \<lparr>stdout = out,
           stderr = [Printf (''Error generating Diceware number: %v'' @ [CHR 0x0A]) [S err]],
           ending = Exit 1\<rparr>
      | (Returns (dicewareNumber, None), s') \<Rightarrow>
          (let out1 = out @ [Printf ''Diceware number %d: %05d'' [I (i + 1), I dicewareNumber]] in
           case dict of
             None \<Rightarrow> main_loop gen dict p sep k (i + 1) s' passphraseWords (out1 @ [Println])
           | Some d \<Rightarrow>
               (case d dicewareNumber of
                  Some word \<Rightarrow>
                    main_loop gen dict p sep k (i + 1) s' (passphraseWords @ [word])
                      (out1 @ [Printf '' - %s'' [S word], Println])
                | None \<Rightarrow>
                    main_loop gen dict p sep k (i + 1) s' passphraseWords
                      (out1 @ [Printf '' - (word not found in dictionary for number %05d)''
                                 [I dicewareNumber], Println])))
      | (Panics msg, s') \<Rightarrow> \<lparr>stdout = out, stderr = [], ending = Panic msg\<rparr>
      | (Starved, s') \<Rightarrow> \<lparr>stdout = out, stderr = [], ending = Unfinished\<rparr>)"


text \<open>
  The TPM variant opens the TPM after the check of \<^verbatim>\<open>-r\<close> and before the dictionary is
  loaded; \<^verbatim>\<open>tpm2.OpenTPM()\<close> answers with an error or with the handle. When it fails the
  message is written and \<^verbatim>\<open>main\<close> returns. The deferred \<^verbatim>\<open>rwc.Close()\<close> writes nothing
  and is left out.
\<close>

definition main_tpm :: "flags_tpm \<Rightarrow> string \<Rightarrow> files \<Rightarrow> error + reply list \<Rightarrow> run" where
  "main_tpm fl argv0 fs OpenTPM =
     (if rolls fl < 1 then
        \<lparr>stdout = [],
         stderr = Printf (''Error: Number of rolls must be at least 1'' @ [CHR 0x0A]) []
                    # printUsage_tpm argv0,
         ending = Exit 1\<rparr>
      else
        (case OpenTPM of
           Inl err \<Rightarrow>
             \<lparr>stdout = [],
              stderr = [Printf (''Failed to open TPM: %v'' @ [CHR 0x0A]) [S err]],
              ending = Exit 0\<rparr>
         | Inr rwc \<Rightarrow>
             if dictFile fl \<noteq> [] then
               (case loadDictionary fs (dictFile fl) of
                  (dict, Some err) \<Rightarrow>
                    \<lparr>stdout = [],
                     stderr = [Printf (''Error loading dictionary: %v'' @ [CHR 0x0A]) [S err]],
                     ending = Exit 1\<rparr>
                | (dict, None) \<Rightarrow>
                    main_loop (\<lambda>s. generateDicewareNumber_tpm s 5) dict (showPassphrase fl)
                      (separator fl) (nat (rolls fl)) 0 rwc [] [])
             else
               main_loop (\<lambda>s. generateDicewareNumber_tpm s 5) None (showPassphrase fl)
                 (separator fl) (nat (rolls fl)) 0 rwc [] []))"


fun number_lines :: "(int \<rightharpoonup> string) option \<Rightarrow> int \<Rightarrow> int list \<Rightarrow> written list" where
  "number_lines dict i [] = []"
| "number_lines dict i (n # ns) =
     Printf ''Diceware number %d: %05d'' [I (i + 1), I n]
       # (case dict of
            None \<Rightarrow> []
          | Some d \<Rightarrow>
              (case d n of
                 Some word \<Rightarrow> [Printf '' - %s'' [S word]]
               | None \<Rightarrow> [Printf '' - (word not found in dictionary for number %05d)'' [I n]]))
       @ Println # number_lines dict (i + 1) ns"


text \<open>
  Three notions to count how the samplers map raw entropy to outputs.
  \<open>preimages_tpm max v\<close>: the bytes that the loop of the TPM variant accepts and maps to
  \<open>v\<close>. \<open>preimages_crypto max v\<close>: the 32-bit words, as read from the source, that the
  crypto/rand variant maps to \<open>v\<close> (it accepts every word). \<open>masked_preimages max v\<close>:
  the same among the words with a clear sign bit, which are the values left by the mask.
\<close>

definition preimages_tpm :: "int32 \<Rightarrow> int32 \<Rightarrow> byte set" where
  "preimages_tpm mx v =
     {b. \<not> 255 - 255 mod (ucast mx :: byte) \<le> b \<and> ucast (b mod (ucast mx :: byte)) = v}"

definition preimages_crypto :: "int32 \<Rightarrow> int32 \<Rightarrow> int32 set" where
  "preimages_crypto mx v = {n. masked_mod n mx = v}"

definition masked_preimages :: "int32 \<Rightarrow> int32 \<Rightarrow> int32 set" where
  "masked_preimages mx v = {n. n AND 0x7FFFFFFF = n \<and> masked_mod n mx = v}"

chapter \<open>Properties\<close>

section \<open>Words and their values\<close>

lemma uint8_of_max:
  assumes "1 \<le> sint (mx::int32)" "sint mx \<le> 255"
  shows "uint (ucast mx :: byte) = sint mx"
proof -
  have "uint mx = sint mx mod 2 ^ 32"
    by (simp add: uint_sint take_bit_eq_mod)
  then have "uint mx = sint mx" using assms by simp
  moreover have "uint (ucast mx :: byte) = uint mx mod 256"
    by (simp add: unsigned_ucast_eq take_bit_eq_mod)
  ultimately show ?thesis using assms by simp
qed

lemma maxValid_uint:
  "uint (255 - 255 mod (m::byte)) = 255 - 255 mod uint m"
proof -
  have "255 mod m \<le> (255::byte)" by (simp add: word_le_nat_alt unat_mod)
  then have "unat (255 - 255 mod m) = unat (255::byte) - unat (255 mod m)"
    by (rule unat_sub)
  then have "unat (255 - 255 mod m) = 255 - 255 mod unat m" by (simp add: unat_mod)
  then have "int (unat (255 - 255 mod m)) = int (255 - 255 mod unat m)" by simp
  also have "\<dots> = 255 - 255 mod uint m"
    by (simp add: of_nat_diff zmod_int)
  finally show ?thesis by simp
qed

lemma sint_ucast_byte:
  "sint (ucast (x::byte) :: int32) = uint x"
proof -
  have lo: "0 \<le> uint x" by simp
  have hi: "uint x < 2 ^ 8" using uint_bounded [of x] by simp
  have "signed_take_bit 31 (uint x) = uint x"
  proof (rule signed_take_bit_int_eq_self)
    have "- (2 ^ 31) \<le> (0::int)" by simp
    then show "- (2 ^ 31) \<le> uint x" using lo by (rule order_trans)
    have "(2::int) ^ 8 < 2 ^ 31" by simp
    with hi show "uint x < 2 ^ 31" by (rule less_trans)
  qed
  moreover have "take_bit 32 (uint x) = uint x"
    using lo hi by (simp add: take_bit_int_eq_self)
  ultimately show ?thesis
    by (simp add: sint_uint unsigned_ucast_eq)
qed

lemma result_sint:
  assumes "1 \<le> sint (mx::int32)" "sint mx \<le> 255"
  shows "sint (ucast ((b::byte) mod ucast mx) :: int32) = uint b mod sint mx"
  using assms by (simp add: sint_ucast_byte uint_mod_distrib uint8_of_max)

section \<open>The rejection loop of the TPM variant\<close>

lemma loop_skips:
  assumes "\<forall>x\<in>set pre. maxValid \<le> x"
  shows "secureRandInt_loop maxValid m (map one_byte pre @ rwc) = secureRandInt_loop maxValid m rwc"
  using assms by (induction pre) (simp_all add: one_byte_def)

text \<open>
  C9. Let \<open>max\<close> lie in 1..255 and let the source answer with the bytes
  \<open>pre @ b # post\<close>, one byte per call, where \<open>b\<close> is the first byte strictly below
  \<open>255 - (255 mod max)\<close>. Then \<^verbatim>\<open>secureRandInt\<close> of the TPM variant returns, without
  error, the value \<open>b mod max\<close>, and the handle is left with the answers \<open>post\<close>: the bytes
  up to and including \<open>b\<close> are consumed and no other.
\<close>

theorem secureRandInt_tpm_terminates:
  assumes "1 \<le> sint mx" "sint mx \<le> 255"
    and "\<forall>x\<in>set pre. \<not> uint x < 255 - 255 mod sint mx"
    and "uint b < 255 - 255 mod sint mx"
  shows "secureRandInt_tpm (map one_byte (pre @ b # post)) mx =
           (Returns (ucast (b mod ucast mx), None), map one_byte post)
         \<and> sint (ucast (b mod ucast mx) :: int32) = uint b mod sint mx"
proof -
  let ?m = "ucast mx :: byte"
  let ?maxValid = "255 - 255 mod ?m"
  have m: "uint ?m = sint mx" using assms(1,2) by (rule uint8_of_max)
  then have nz: "?m \<noteq> 0" using assms(1) by auto
  have mv: "uint ?maxValid = 255 - 255 mod sint mx" by (simp add: maxValid_uint m)
  have rej: "\<forall>x\<in>set pre. ?maxValid \<le> x"
    using assms(3) mv by (auto simp add: word_le_def not_less)
  have acc: "\<not> ?maxValid \<le> b"
    using assms(4) mv by (simp add: word_le_def)
  have "secureRandInt_tpm (map one_byte (pre @ b # post)) mx =
          secureRandInt_loop ?maxValid ?m (map one_byte pre @ one_byte b # map one_byte post)"
    using nz by (simp add: secureRandInt_tpm_def Let_def)
  also have "\<dots> = secureRandInt_loop ?maxValid ?m (one_byte b # map one_byte post)"
    using rej by (rule loop_skips)
  also have "\<dots> = (Returns (ucast (b mod ?m), None), map one_byte post)"
    using acc by (simp add: one_byte_def)
  finally show ?thesis using assms(1,2) by (simp add: result_sint)
qed

theorem secureRandInt_tpm_terminates_witness:
  "secureRandInt_tpm (map one_byte ([255, 252] @ 251 # [9])) 6 = (Returns (5, None), map one_byte [9])
   \<and> sint (5 :: int32) = uint (251 :: byte) mod sint (6 :: int32)"
  using secureRandInt_tpm_terminates [of 6 "[255, 252]" 251 "[9]"] by simp

lemma threshold_le:
  assumes "1 \<le> (M::int)"
  shows "255 - 255 mod M \<le> 256 - 256 mod M"
proof -
  have "256 mod M = (255 mod M + 1) mod M"
    by (simp add: mod_add_left_eq)
  also have "\<dots> \<le> 255 mod M + 1"
    using assms by (intro zmod_le_nonneg_dividend) simp
  finally show ?thesis by simp
qed

lemma loop_range:
  assumes "1 \<le> uint m"
    and "secureRandInt_loop maxValid m rwc = (Returns (v, e), rwc')"
  shows "0 \<le> sint v \<and> sint v < uint m"
  using assms
proof (induction maxValid m rwc rule: secureRandInt_loop.induct)
  case (4 maxValid m b bs rwc)
  show ?case
  proof (cases "maxValid \<le> b")
    case True
    with 4 show ?thesis by simp
  next
    case False
    with 4 have v: "v = ucast (b mod m)" by simp
    have "uint (b mod m) = uint b mod uint m" by (simp add: uint_mod_distrib)
    moreover have "uint b mod uint m < uint m" using 4(2) by simp
    moreover have "0 \<le> uint b mod uint m" using 4(2) by simp
    ultimately show ?thesis by (simp add: v sint_ucast_byte)
  qed
qed simp_all

text \<open>
  C2, at \<open>max = 2\<close> and at \<open>max = 256\<close>. The claim's rejected range starts at
  \<open>256 - (256 mod max)\<close>, and a byte below it is accepted and yields \<open>b mod max\<close>. At
  \<open>max = 2\<close> that bound is 256, so the byte 254 would yield 0 and leave the next byte
  unread; the code computes \<^verbatim>\<open>maxValid\<close> = 254, retries the byte 254 and returns from the
  byte after it. At \<open>max = 256\<close> the conversion \<^verbatim>\<open>uint8(max)\<close> is 0, so the computation of
  \<^verbatim>\<open>maxValid\<close> divides by zero and the call panics before it reads the source: the byte
  7, below \<open>256 - (256 mod 256)\<close>, does not yield \<open>7 mod 256\<close>.
\<close>

theorem secureRandInt_tpm_threshold_counterexample:
  "sint (2 :: int32) = 2 \<and> uint (254 :: byte) < 256 - 256 mod 2 \<and> uint (254 :: byte) mod 2 = 0
   \<and> secureRandInt_tpm [one_byte 254, one_byte 1] 2 = (Returns (1, None), [])
   \<and> sint (256 :: int32) = 256 \<and> uint (7 :: byte) < 256 - 256 mod 256
   \<and> secureRandInt_tpm [one_byte 7] 256
       = (Panics ''runtime error: integer divide by zero'', [one_byte 7])"
  by (simp add: secureRandInt_tpm_def one_byte_def word_le_nat_alt)

text \<open>
  C2, amended. For \<open>max\<close> in 2..255 and every byte \<open>b\<close>: a value that \<^verbatim>\<open>secureRandInt\<close>
  of the TPM variant returns lies in \<open>[0, max)\<close>, whatever the source answers; the draw
  is retried exactly when \<open>b\<close> is at least \<open>255 - (255 mod max)\<close>, the bound the code
  computes, which is at most \<open>256 - (256 mod max)\<close>, so that every byte at or above the
  latter is retried too: the call goes on as if it had started on the answers after
  \<open>b\<close>; when \<open>b\<close> is below \<open>255 - (255 mod max)\<close> it is accepted and the call returns
  \<open>b mod max\<close>.
\<close>

theorem secureRandInt_tpm_rejection:
  assumes "2 \<le> sint mx" "sint mx \<le> 255"
  shows "(secureRandInt_tpm rwc mx = (Returns (v, e), rwc') \<longrightarrow> 0 \<le> sint v \<and> sint v < sint mx)
     \<and> (256 - 256 mod sint mx \<le> uint b \<longrightarrow>
          secureRandInt_tpm (GetRandomOk (b # bs) # rwc) mx = secureRandInt_tpm rwc mx)
     \<and> (255 - 255 mod sint mx \<le> uint b \<longrightarrow>
          secureRandInt_tpm (GetRandomOk (b # bs) # rwc) mx = secureRandInt_tpm rwc mx)
     \<and> (uint b < 255 - 255 mod sint mx \<longrightarrow>
          secureRandInt_tpm (GetRandomOk (b # bs) # rwc) mx = (Returns (ucast (b mod ucast mx), None), rwc)
          \<and> sint (ucast (b mod ucast mx) :: int32) = uint b mod sint mx)"
proof -
  let ?m = "ucast mx :: byte"
  let ?maxValid = "255 - 255 mod ?m"
  have one: "1 \<le> sint mx" using assms(1) by simp
  have m: "uint ?m = sint mx" using one assms(2) by (rule uint8_of_max)
  then have nz: "?m \<noteq> 0" using one by auto
  have mv: "uint ?maxValid = 255 - 255 mod sint mx" by (simp add: maxValid_uint m)
  have unfold: "secureRandInt_tpm r mx = secureRandInt_loop ?maxValid ?m r" for r
    using nz by (simp add: secureRandInt_tpm_def Let_def)
  have range: "secureRandInt_tpm rwc mx = (Returns (v, e), rwc') \<longrightarrow> 0 \<le> sint v \<and> sint v < sint mx"
    using loop_range [of ?m ?maxValid rwc v e rwc'] one m by (simp add: unfold)
  have retry: "255 - 255 mod sint mx \<le> uint b \<longrightarrow>
      secureRandInt_tpm (GetRandomOk (b # bs) # rwc) mx = secureRandInt_tpm rwc mx"
    using mv by (simp add: unfold word_le_def)
  have retry': "256 - 256 mod sint mx \<le> uint b \<longrightarrow>
      secureRandInt_tpm (GetRandomOk (b # bs) # rwc) mx = secureRandInt_tpm rwc mx"
    using retry threshold_le [OF one] by linarith
  have accept: "uint b < 255 - 255 mod sint mx \<longrightarrow>
      secureRandInt_tpm (GetRandomOk (b # bs) # rwc) mx = (Returns (ucast (b mod ucast mx), None), rwc)
      \<and> sint (ucast (b mod ucast mx) :: int32) = uint b mod sint mx"
    using mv one assms(2) by (simp add: unfold word_le_def result_sint)
  from range retry' retry accept show ?thesis by blast
qed

theorem secureRandInt_tpm_rejection_witness:
  "2 \<le> sint (6 :: int32) \<and> sint (6 :: int32) \<le> 255
   \<and> secureRandInt_tpm [one_byte 251] 6 = (Returns (5, None), [])
   \<and> 0 \<le> sint (5 :: int32) \<and> sint (5 :: int32) < sint (6 :: int32)
   \<and> 256 - 256 mod sint (6 :: int32) \<le> uint (252 :: byte)
   \<and> secureRandInt_tpm (GetRandomOk [252] # [one_byte 7]) 6 = secureRandInt_tpm [one_byte 7] 6
   \<and> uint (251 :: byte) < 255 - 255 mod sint (6 :: int32)
   \<and> secureRandInt_tpm (GetRandomOk [251] # [one_byte 7]) 6 = (Returns (5, None), [one_byte 7])"
  using secureRandInt_tpm_rejection [of 6 "[one_byte 251]" 5 None "[]" 252 "[]"]
    secureRandInt_tpm_rejection [of 6 "[one_byte 7]" 5 None "[]" 252 "[]"]
    secureRandInt_tpm_rejection [of 6 "[one_byte 7]" 5 None "[]" 251 "[]"]
  by (simp add: one_byte_def secureRandInt_tpm_def)

section \<open>The number generator\<close>

lemma int_wrap_id: "- (2 ^ 63) \<le> x \<Longrightarrow> x < 2 ^ 63 \<Longrightarrow> int_wrap x = x"
  by (simp add: int_wrap_def)

lemma sint_succ:
  assumes "0 \<le> sint (r::int32)" "sint r < 6"
  shows "sint (r + 1) = sint r + 1"
proof -
  have "sint (r + 1) = signed_take_bit 31 (sint r + 1)"
    by (simp add: sint_word_add)
  also have "\<dots> = sint r + 1"
    using assms by (intro signed_take_bit_int_eq_self) simp_all
  finally show ?thesis .
qed

lemma loop_draws:
  "draws sample s rs s' \<Longrightarrow>
   generateDicewareNumber_loop sample (length rs) result s =
     (Returns (foldl (\<lambda>result roll. int_wrap (int_wrap (result * 10) + sint (roll + 1))) result rs, None), s')"
proof (induction rs arbitrary: s result)
  case Nil
  then show ?case by simp
next
  case (Cons r rs)
  then show ?case
    by (auto split: prod.splits outcome.splits option.splits)
qed

lemma loop_fails:
  "draws sample s rs t \<Longrightarrow> sample t = (Returns (x, Some err), t') \<Longrightarrow> length rs < n \<Longrightarrow>
   generateDicewareNumber_loop sample n result s =
     (Returns (0, Some (''failed to generate random number: '' @ err)), t')"
proof (induction rs arbitrary: s result n)
  case Nil
  then obtain k where "n = Suc k" by (cases n) auto
  with Nil show ?case by simp
next
  case (Cons r rs)
  then obtain k where n: "n = Suc k" by (cases n) auto
  with Cons.prems have "length rs < k" by simp
  with Cons n show ?case
    by (auto split: prod.splits outcome.splits option.splits)
qed

lemma foldl_exact:
  "\<forall>r\<in>set rs. 0 \<le> sint r \<and> sint r < 6 \<Longrightarrow> 0 \<le> result \<Longrightarrow> result < 10 ^ k \<Longrightarrow>
   k + length rs \<le> 18 \<Longrightarrow>
   foldl (\<lambda>result roll. int_wrap (int_wrap (result * 10) + sint (roll + 1))) result rs
     = foldl (\<lambda>result roll. result * 10 + (sint roll + 1)) result (rs :: int32 list)"
proof (induction rs arbitrary: result k)
  case Nil
  then show ?case by simp
next
  case (Cons r rs)
  have r: "0 \<le> sint r" "sint r < 6" using Cons.prems(1) by simp_all
  have k: "k \<le> 17" using Cons.prems(4) by simp
  have "(10::int) ^ k \<le> 10 ^ 17" using k by (intro power_increasing) simp_all
  then have small: "result < 10 ^ 17" using Cons.prems(3) by linarith
  have w1: "int_wrap (result * 10) = result * 10"
    using Cons.prems(2) small by (intro int_wrap_id) simp_all
  have w2: "int_wrap (result * 10 + (sint r + 1)) = result * 10 + (sint r + 1)"
    using Cons.prems(2) small r by (intro int_wrap_id) simp_all
  have next_lo: "0 \<le> result * 10 + (sint r + 1)" using Cons.prems(2) r by simp
  have "result * 10 + (sint r + 1) < 10 ^ Suc k"
    using Cons.prems(3) r by simp
  moreover have "Suc k + length rs \<le> 18" using Cons.prems(4) by simp
  moreover have "\<forall>r\<in>set rs. 0 \<le> sint r \<and> sint r < 6" using Cons.prems(1) by simp
  ultimately have "foldl (\<lambda>result roll. int_wrap (int_wrap (result * 10) + sint (roll + 1)))
        (result * 10 + (sint r + 1)) rs
     = foldl (\<lambda>result roll. result * 10 + (sint roll + 1)) (result * 10 + (sint r + 1)) rs"
    using next_lo by (intro Cons.IH)
  then show ?case by (simp add: w1 w2 sint_succ r)
qed

lemma digit_at:
  assumes "0 \<le> r" "r < 10 ^ j" "0 \<le> x" "x < 10"
  shows "(10 ^ j * (10 * q + x) + r) div 10 ^ j mod 10 = (x::int)"
proof -
  have "(10 ^ j * (10 * q + x) + r) div 10 ^ j = (10 * q + x) + r div 10 ^ j"
    by (simp add: div_mult_self4)
  also have "r div 10 ^ j = 0" using assms(1,2) by (rule div_pos_pos_trivial)
  finally show ?thesis using assms(3,4) by simp
qed

lemma five_digits:
  assumes "length rs = 5" "\<forall>r\<in>set rs. 0 \<le> sint r \<and> sint r < 6"
  shows "11111 \<le> accumulate rs \<and> accumulate rs \<le> 66666
       \<and> map (\<lambda>i. accumulate rs div 10 ^ i mod 10) [4, 3, 2, 1, 0] = map (\<lambda>r. sint r + 1) rs"
proof -
  from assms(1) obtain a b c d e where rs: "rs = [a, b, c, d, e]"
    by (auto simp add: length_Suc_conv eval_nat_numeral)
  define x1 x2 x3 x4 x5 where "x1 = sint a + 1" and "x2 = sint b + 1" and "x3 = sint c + 1"
    and "x4 = sint d + 1" and "x5 = sint e + 1"
  have bounds: "1 \<le> x1" "x1 \<le> 6" "1 \<le> x2" "x2 \<le> 6" "1 \<le> x3" "x3 \<le> 6"
    "1 \<le> x4" "x4 \<le> 6" "1 \<le> x5" "x5 \<le> 6"
    using assms(2) by (simp_all add: rs x1_def x2_def x3_def x4_def x5_def)
  have N: "accumulate rs = 10000 * x1 + 1000 * x2 + 100 * x3 + 10 * x4 + x5"
    by (simp add: accumulate_def rs x1_def x2_def x3_def x4_def x5_def)
  have range: "11111 \<le> accumulate rs" "accumulate rs \<le> 66666"
    using bounds by (simp_all add: N)
  have e4: "accumulate rs = 10 ^ 4 * (10 * 0 + x1) + (1000 * x2 + 100 * x3 + 10 * x4 + x5)"
    by (simp add: N)
  have d4: "accumulate rs div 10 ^ 4 mod 10 = x1"
    unfolding e4 by (rule digit_at) (use bounds in simp_all)
  have e3: "accumulate rs = 10 ^ 3 * (10 * x1 + x2) + (100 * x3 + 10 * x4 + x5)"
    by (simp add: N)
  have d3: "accumulate rs div 10 ^ 3 mod 10 = x2"
    unfolding e3 by (rule digit_at) (use bounds in simp_all)
  have e2: "accumulate rs = 10 ^ 2 * (10 * (10 * x1 + x2) + x3) + (10 * x4 + x5)"
    by (simp add: N)
  have d2: "accumulate rs div 10 ^ 2 mod 10 = x3"
    unfolding e2 by (rule digit_at) (use bounds in simp_all)
  have e1: "accumulate rs = 10 ^ 1 * (10 * (100 * x1 + 10 * x2 + x3) + x4) + x5"
    by (simp add: N)
  have d1: "accumulate rs div 10 ^ 1 mod 10 = x4"
    unfolding e1 by (rule digit_at) (use bounds in simp_all)
  have e0: "accumulate rs = 10 ^ 0 * (10 * (1000 * x1 + 100 * x2 + 10 * x3 + x4) + x5) + 0"
    by (simp add: N)
  have d0: "accumulate rs div 10 ^ 0 mod 10 = x5"
    unfolding e0 by (rule digit_at) (use bounds in simp_all)
  have m1: "map (\<lambda>i. accumulate rs div 10 ^ i mod 10) [4, 3, 2, 1, 0] = [x1, x2, x3, x4, x5]"
    by (simp only: list.map d4 d3 d2 d1 d0)
  have m2: "map (\<lambda>r. sint r + 1) rs = [x1, x2, x3, x4, x5]"
    by (simp add: rs x1_def x2_def x3_def x4_def x5_def)
  show ?thesis unfolding m1 m2 using range by blast
qed


text \<open>
  C5. Let the five calls of the sampler with \<open>max = 6\<close> succeed and return the rolls
  \<open>rs\<close>, each in \<open>[0, 6)\<close>. Then \<^verbatim>\<open>generateDicewareNumber\<close> with \<open>numDice = 5\<close> returns,
  without error, the number that \<open>result = result * 10 + (roll + 1)\<close> accumulates over the
  rolls in order, in both variants and for any sampler put in their place. That number
  lies in \<open>[11111, 66666]\<close> and its five decimal digits, from the most significant, are
  the rolls plus one, so each digit lies in 1..6.
\<close>

theorem generateDicewareNumber_five_dice:
  assumes "length rs = 5" "\<forall>r\<in>set rs. 0 \<le> sint r \<and> sint r < 6"
  shows "(draws sample s rs s' \<longrightarrow>
            generateDicewareNumber_loop sample (nat 5) 0 s = (Returns (accumulate rs, None), s'))
       \<and> (draws (\<lambda>s. secureRandInt_tpm s 6) rwc rs rwc' \<longrightarrow>
            generateDicewareNumber_tpm rwc 5 = (Returns (accumulate rs, None), rwc'))
       \<and> (draws (\<lambda>s. secureRandInt_crypto s 6) reader rs reader' \<longrightarrow>
            generateDicewareNumber_crypto reader 5 = (Returns (accumulate rs, None), reader'))
       \<and> 11111 \<le> accumulate rs \<and> accumulate rs \<le> 66666
       \<and> map (\<lambda>i. accumulate rs div 10 ^ i mod 10) [4, 3, 2, 1, 0] = map (\<lambda>r. sint r + 1) rs
       \<and> (\<forall>d\<in>set (map (\<lambda>i. accumulate rs div 10 ^ i mod 10) [4, 3, 2, 1, 0]). 1 \<le> d \<and> d \<le> 6)"
proof -
  have exact: "foldl (\<lambda>result roll. int_wrap (int_wrap (result * 10) + sint (roll + 1))) 0 rs
      = accumulate rs"
    unfolding accumulate_def using assms(2)
    by (rule foldl_exact [where k = 0]) (simp_all add: assms(1))
  have l1: "draws sample s rs s' \<longrightarrow>
      generateDicewareNumber_loop sample (nat 5) 0 s = (Returns (accumulate rs, None), s')"
    using loop_draws [of sample s rs s' 0] by (simp add: assms(1) exact)
  have l2: "draws (\<lambda>s. secureRandInt_tpm s 6) rwc rs rwc' \<longrightarrow>
      generateDicewareNumber_tpm rwc 5 = (Returns (accumulate rs, None), rwc')"
    unfolding generateDicewareNumber_tpm_def
    using loop_draws [of "\<lambda>s. secureRandInt_tpm s 6" rwc rs rwc' 0] by (simp add: assms(1) exact)
  have l3: "draws (\<lambda>s. secureRandInt_crypto s 6) reader rs reader' \<longrightarrow>
      generateDicewareNumber_crypto reader 5 = (Returns (accumulate rs, None), reader')"
    unfolding generateDicewareNumber_crypto_def
    using loop_draws [of "\<lambda>s. secureRandInt_crypto s 6" reader rs reader' 0] by (simp add: assms(1) exact)
  have digits: "11111 \<le> accumulate rs \<and> accumulate rs \<le> 66666
       \<and> map (\<lambda>i. accumulate rs div 10 ^ i mod 10) [4, 3, 2, 1, 0] = map (\<lambda>r. sint r + 1) rs"
    using assms by (rule five_digits)
  then have eq: "map (\<lambda>i. accumulate rs div 10 ^ i mod 10) [4, 3, 2, 1, 0] = map (\<lambda>r. sint r + 1) rs"
    by blast
  have "\<forall>d\<in>set (map (\<lambda>r. sint r + 1) rs). 1 \<le> d \<and> d \<le> 6"
    using assms(2) by auto
  then have each: "\<forall>d\<in>set (map (\<lambda>i. accumulate rs div 10 ^ i mod 10) [4, 3, 2, 1, 0]). 1 \<le> d \<and> d \<le> 6"
    unfolding eq .
  from l1 l2 l3 digits each show ?thesis by blast
qed

theorem generateDicewareNumber_five_dice_witness:
  "length [0, 1, 2, 3, 5 :: int32] = 5
   \<and> list_all (\<lambda>r. 0 \<le> sint r \<and> sint r < 6) [0, 1, 2, 3, 5 :: int32]
   \<and> draws (\<lambda>s. secureRandInt_tpm s 6) (map one_byte [0, 1, 255, 2, 3, 251, 7]) [0, 1, 2, 3, 5] [one_byte 7]
   \<and> generateDicewareNumber_tpm (map one_byte [0, 1, 255, 2, 3, 251, 7]) 5 = (Returns (12346, None), [one_byte 7])
   \<and> draws (\<lambda>s. secureRandInt_crypto s 6)
        [ReadOk 0 0 0 0, ReadOk 128 0 0 1, ReadOk 0 0 0 2, ReadOk 0 0 0 3, ReadOk 0 0 0 5, ReadErr ''EOF'']
        [0, 1, 2, 3, 5] [ReadErr ''EOF'']
   \<and> generateDicewareNumber_crypto
        [ReadOk 0 0 0 0, ReadOk 128 0 0 1, ReadOk 0 0 0 2, ReadOk 0 0 0 3, ReadOk 0 0 0 5, ReadErr ''EOF''] 5
       = (Returns (12346, None), [ReadErr ''EOF''])
   \<and> accumulate [0, 1, 2, 3, 5] = 12346"
proof -
  have a: "accumulate [0, 1, 2, 3, 5] = 12346" by (simp add: accumulate_def)
  have t: "draws (\<lambda>s. secureRandInt_tpm s 6) (map one_byte [0, 1, 255, 2, 3, 251, 7]) [0, 1, 2, 3, 5] [one_byte 7]"
    by (simp add: secureRandInt_tpm_def one_byte_def word_le_nat_alt)
  have m: "masked_mod (BigEndian_Uint32 0 0 0 0) 6 = 0" "masked_mod (BigEndian_Uint32 128 0 0 1) 6 = 1"
    "masked_mod (BigEndian_Uint32 0 0 0 2) 6 = 2" "masked_mod (BigEndian_Uint32 0 0 0 3) 6 = 3"
    "masked_mod (BigEndian_Uint32 0 0 0 5) 6 = 5"
    by (simp_all add: masked_mod_def BigEndian_Uint32_def signed_modulo_int_def)
  have c: "draws (\<lambda>s. secureRandInt_crypto s 6)
        [ReadOk 0 0 0 0, ReadOk 128 0 0 1, ReadOk 0 0 0 2, ReadOk 0 0 0 3, ReadOk 0 0 0 5, ReadErr ''EOF'']
        [0, 1, 2, 3, 5] [ReadErr ''EOF'']"
    by (simp add: m)
  have h1: "length [0, 1, 2, 3, 5 :: int32] = 5" by simp
  have h2: "\<forall>r\<in>set [0, 1, 2, 3, 5 :: int32]. 0 \<le> sint r \<and> sint r < 6" by simp
  have h2': "list_all (\<lambda>r. 0 \<le> sint r \<and> sint r < 6) [0, 1, 2, 3, 5 :: int32]" by simp
  show ?thesis
    using generateDicewareNumber_five_dice [OF h1 h2,
      of "\<lambda>s. secureRandInt_tpm s 6" "map one_byte [0, 1, 255, 2, 3, 251, 7]" "[one_byte 7]"
         "map one_byte [0, 1, 255, 2, 3, 251, 7]" "[one_byte 7]"
         "[ReadOk 0 0 0 0, ReadOk 128 0 0 1, ReadOk 0 0 0 2, ReadOk 0 0 0 3, ReadOk 0 0 0 5, ReadErr ''EOF'']"
         "[ReadErr ''EOF'']"]
      a t c h1 h2'
    by (simp only: simp_thms)
qed

text \<open>
  C6. Let the first calls of the sampler succeed with the rolls \<open>rs\<close>, fewer than
  \<open>numDice\<close> of them, and let the next call return the error \<open>err\<close>, leaving the source
  \<open>t'\<close>. Then \<^verbatim>\<open>generateDicewareNumber\<close> returns the integer 0, not the number
  accumulated so far, with the error whose message is \<open>err\<close>'s after the prefix
  \<^verbatim>\<open>failed to generate random number: \<close>, and it leaves the source \<open>t'\<close>: the sampler is
  not called again. This holds in both variants and for any sampler put in their place.
\<close>

theorem generateDicewareNumber_first_error:
  assumes "int (length rs) < numDice"
  shows "(draws sample s rs t \<and> sample t = (Returns (x, Some err), t') \<longrightarrow>
            generateDicewareNumber_loop sample (nat numDice) 0 s
              = (Returns (0, Some (''failed to generate random number: '' @ err)), t'))
       \<and> (draws (\<lambda>s. secureRandInt_tpm s 6) rwc rs rwc1
            \<and> secureRandInt_tpm rwc1 6 = (Returns (x, Some err), rwc2) \<longrightarrow>
            generateDicewareNumber_tpm rwc numDice
              = (Returns (0, Some (''failed to generate random number: '' @ err)), rwc2))
       \<and> (draws (\<lambda>s. secureRandInt_crypto s 6) reader rs reader1
            \<and> secureRandInt_crypto reader1 6 = (Returns (x, Some err), reader2) \<longrightarrow>
            generateDicewareNumber_crypto reader numDice
              = (Returns (0, Some (''failed to generate random number: '' @ err)), reader2))"
proof -
  have n: "length rs < nat numDice" using assms by simp
  have l1: "draws sample s rs t \<and> sample t = (Returns (x, Some err), t') \<longrightarrow>
      generateDicewareNumber_loop sample (nat numDice) 0 s
        = (Returns (0, Some (''failed to generate random number: '' @ err)), t')"
    using loop_fails [of sample s rs t x err t' "nat numDice" 0] n by blast
  have l2: "draws (\<lambda>s. secureRandInt_tpm s 6) rwc rs rwc1
      \<and> secureRandInt_tpm rwc1 6 = (Returns (x, Some err), rwc2) \<longrightarrow>
      generateDicewareNumber_tpm rwc numDice
        = (Returns (0, Some (''failed to generate random number: '' @ err)), rwc2)"
    unfolding generateDicewareNumber_tpm_def
    using loop_fails [of "\<lambda>s. secureRandInt_tpm s 6" rwc rs rwc1 x err rwc2 "nat numDice" 0] n by blast
  have l3: "draws (\<lambda>s. secureRandInt_crypto s 6) reader rs reader1
      \<and> secureRandInt_crypto reader1 6 = (Returns (x, Some err), reader2) \<longrightarrow>
      generateDicewareNumber_crypto reader numDice
        = (Returns (0, Some (''failed to generate random number: '' @ err)), reader2)"
    unfolding generateDicewareNumber_crypto_def
    using loop_fails [of "\<lambda>s. secureRandInt_crypto s 6" reader rs reader1 x err reader2 "nat numDice" 0] n
    by blast
  from l1 l2 l3 show ?thesis by blast
qed

theorem generateDicewareNumber_first_error_witness:
  "int (length [0, 1 :: int32]) < 5
   \<and> draws (\<lambda>s. secureRandInt_tpm s 6) [one_byte 0, one_byte 255, one_byte 1, GetRandomErr ''EIO'', one_byte 3]
        [0, 1] [GetRandomErr ''EIO'', one_byte 3]
   \<and> secureRandInt_tpm [GetRandomErr ''EIO'', one_byte 3] 6 = (Returns (0, Some ''EIO''), [one_byte 3])
   \<and> generateDicewareNumber_tpm [one_byte 0, one_byte 255, one_byte 1, GetRandomErr ''EIO'', one_byte 3] 5
       = (Returns (0, Some ''failed to generate random number: EIO''), [one_byte 3])
   \<and> draws (\<lambda>s. secureRandInt_crypto s 6) [ReadOk 0 0 0 0, ReadOk 0 0 0 1, ReadErr ''EIO'', ReadOk 0 0 0 3]
        [0, 1] [ReadErr ''EIO'', ReadOk 0 0 0 3]
   \<and> secureRandInt_crypto [ReadErr ''EIO'', ReadOk 0 0 0 3] 6 = (Returns (0, Some ''EIO''), [ReadOk 0 0 0 3])
   \<and> generateDicewareNumber_crypto [ReadOk 0 0 0 0, ReadOk 0 0 0 1, ReadErr ''EIO'', ReadOk 0 0 0 3] 5
       = (Returns (0, Some ''failed to generate random number: EIO''), [ReadOk 0 0 0 3])"
proof -
  have h: "int (length [0, 1 :: int32]) < 5" by simp
  have t: "draws (\<lambda>s. secureRandInt_tpm s 6) [one_byte 0, one_byte 255, one_byte 1, GetRandomErr ''EIO'', one_byte 3]
        [0, 1] [GetRandomErr ''EIO'', one_byte 3]"
    by (simp add: secureRandInt_tpm_def one_byte_def word_le_nat_alt)
  have te: "secureRandInt_tpm [GetRandomErr ''EIO'', one_byte 3] 6 = (Returns (0, Some ''EIO''), [one_byte 3])"
    by (simp add: secureRandInt_tpm_def one_byte_def word_le_nat_alt)
  have m: "masked_mod (BigEndian_Uint32 0 0 0 0) 6 = 0" "masked_mod (BigEndian_Uint32 0 0 0 1) 6 = 1"
    by (simp_all add: masked_mod_def BigEndian_Uint32_def signed_modulo_int_def)
  have c: "draws (\<lambda>s. secureRandInt_crypto s 6) [ReadOk 0 0 0 0, ReadOk 0 0 0 1, ReadErr ''EIO'', ReadOk 0 0 0 3]
        [0, 1] [ReadErr ''EIO'', ReadOk 0 0 0 3]"
    by (simp add: m)
  have ce: "secureRandInt_crypto [ReadErr ''EIO'', ReadOk 0 0 0 3] 6 = (Returns (0, Some ''EIO''), [ReadOk 0 0 0 3])"
    by simp
  show ?thesis
    using generateDicewareNumber_first_error [OF h,
      of "\<lambda>s. secureRandInt_tpm s 6" "[one_byte 0, one_byte 255, one_byte 1, GetRandomErr ''EIO'', one_byte 3]"
         "[GetRandomErr ''EIO'', one_byte 3]" 0 "''EIO''" "[one_byte 3]"
         "[one_byte 0, one_byte 255, one_byte 1, GetRandomErr ''EIO'', one_byte 3]"
         "[GetRandomErr ''EIO'', one_byte 3]" "[one_byte 3]"
         "[ReadOk 0 0 0 0, ReadOk 0 0 0 1, ReadErr ''EIO'', ReadOk 0 0 0 3]"
         "[ReadErr ''EIO'', ReadOk 0 0 0 3]" "[ReadOk 0 0 0 3]"]
      h t te c ce
    by simp
qed

section \<open>The dictionary\<close>

lemma Split_nonempty: "Split s sep \<noteq> []"
  by (induction s) (auto split: list.splits)

lemma malformed_entry: "malformed line \<longleftrightarrow> entry line = None"
proof (cases "Split line (CHR 0x09)")
  case Nil
  then show ?thesis using Split_nonempty by blast
next
  case (Cons field rest)
  then show ?thesis
    by (cases rest) (simp_all add: malformed_def entry_def)
qed

lemma loop_step:
  "loadDictionary_loop dict (line # rest) =
     loadDictionary_loop (case entry line of None \<Rightarrow> dict | Some (number, word) \<Rightarrow> dict(number \<mapsto> word)) rest"
proof (cases "Split line (CHR 0x09)")
  case Nil
  then show ?thesis using Split_nonempty by blast
next
  case (Cons field more)
  then show ?thesis
    by (cases more) (simp_all add: entry_def Let_def split: option.splits)
qed

lemma loop_append:
  "loadDictionary_loop dict (xs @ ys) = loadDictionary_loop (loadDictionary_loop dict xs) ys"
proof (induction xs arbitrary: dict)
  case Nil
  show ?case by simp
next
  case (Cons x xs)
  show ?case by (simp only: append_Cons loop_step Cons.IH)
qed

lemma loop_untouched:
  "\<forall>l\<in>set post. \<forall>w. entry l \<noteq> Some (k, w) \<Longrightarrow> loadDictionary_loop dict post k = dict k"
proof (induction post arbitrary: dict)
  case Nil
  show ?case by simp
next
  case (Cons l post)
  then have IH: "loadDictionary_loop d post k = d k" for d by simp
  from Cons.prems have "\<forall>w. entry l \<noteq> Some (k, w)" by simp
  then show ?case
    by (cases "entry l") (auto simp only: loop_step IH option.case prod.case fun_upd_apply split: if_splits)
qed


lemma Split_cut: "sep \<notin> set xs \<Longrightarrow> Split (xs @ sep # ys) sep = xs # Split ys sep"
  by (induction xs) auto

lemma raw_lines_Nil: "raw_lines [] = []"
  by (simp add: raw_lines_def)

lemma raw_lines_cut:
  assumes "CHR 0x0A \<notin> set l"
  shows "raw_lines (l @ CHR 0x0A # rest) = l # raw_lines rest"
proof -
  have ne: "Split rest (CHR 0x0A) \<noteq> []" by (rule Split_nonempty)
  have "Split (l @ CHR 0x0A # rest) (CHR 0x0A) = l # Split rest (CHR 0x0A)"
    using assms by (rule Split_cut)
  then show ?thesis using ne by (simp add: raw_lines_def Let_def)
qed




lemma Scan_lines_short:
  "\<forall>l\<in>set ls. length l < 65536 \<Longrightarrow> Scan_lines ls e = (map dropCR ls, e)"
  by (induction ls) simp_all

lemma loadDictionary_content:
  "fs name = Inr (data, read_err) \<Longrightarrow>
   loadDictionary fs name =
     (case Scan_lines (raw_lines data) read_err of
        (tokens, Some err) \<Rightarrow> (None, Some err)
      | (tokens, None) \<Rightarrow> (Some (loadDictionary_loop Map.empty tokens), None))"
  by (simp add: loadDictionary_def Scanner_def split: prod.splits option.splits)


lemma load_short_lines:
  assumes "fs name = Inr (data, None)" "\<forall>l'\<in>set (raw_lines data). length l' < 65536"
  shows "loadDictionary fs name = (Some (loadDictionary_loop Map.empty (map dropCR (raw_lines data))), None)"
  by (simp add: loadDictionary_content [of fs name, OF assms(1)] Scan_lines_short [OF assms(2)])

lemma stored_line:
  assumes "fs name = Inr (data, None)" "raw_lines data = xs @ l # ys"
    and "\<forall>l'\<in>set (xs @ l # ys). length l' < 65536"
    and "entry (dropCR l) = Some (k, w)"
    and "\<forall>l'\<in>set ys. \<forall>w'. entry (dropCR l') \<noteq> Some (k, w')"
  shows "\<exists>d. loadDictionary fs name = (Some d, None) \<and> d k = Some w"
proof -
  have short: "\<forall>l'\<in>set (raw_lines data). length l' < 65536" using assms(2,3) by simp
  have load: "loadDictionary fs name
      = (Some (loadDictionary_loop Map.empty (map dropCR (xs @ l # ys))), None)"
    using load_short_lines [of fs name, OF assms(1) short] assms(2) by simp
  have later: "\<forall>t\<in>set (map dropCR ys). \<forall>w'. entry t \<noteq> Some (k, w')" using assms(5) by simp
  have "loadDictionary_loop Map.empty (map dropCR xs @ dropCR l # map dropCR ys) k
      = loadDictionary_loop ((loadDictionary_loop Map.empty (map dropCR xs))(k \<mapsto> w)) (map dropCR ys) k"
    by (simp only: loop_append loop_step assms(4) option.case prod.case)
  also have "\<dots> = ((loadDictionary_loop Map.empty (map dropCR xs))(k \<mapsto> w)) k"
    using later by (rule loop_untouched)
  finally have "loadDictionary_loop Map.empty (map dropCR (xs @ l # ys)) k = Some w" by simp
  with load show ?thesis by blast
qed





lemma SkipSpace_digit: "isDigit d \<Longrightarrow> SkipSpace (d # s) = Some (d # s)"
  by (subst SkipSpace.simps) (auto simp add: isDigit_def isSpace_ascii_def)

lemma accept_sign_digit: "isDigit d \<Longrightarrow> accept_sign (d # s) = ([], d # s)"
  by (auto simp add: accept_sign_def isDigit_def)

lemma takeWhile_digits:
  "\<forall>d\<in>set ds. isDigit d \<Longrightarrow> \<not> isDigit c \<Longrightarrow> takeWhile isDigit (ds @ c # rest) = ds"
  by (induction ds) simp_all

lemma SkipSpace_sign: "c = CHR ''+'' \<or> c = CHR ''-'' \<Longrightarrow> SkipSpace (c # s) = Some (c # s)"
  by (subst SkipSpace.simps) (auto simp add: isSpace_ascii_def)

lemma Sscanf_d_prefix:
  assumes "sg = [] \<or> sg = ''+'' \<or> sg = ''-''"
    and "ds \<noteq> []" "\<forall>d\<in>set ds. isDigit d" "\<not> isDigit c"
    and "i = (if sg = ''-'' then - decimal ds else decimal ds)"
    and "- (2 ^ 63) \<le> i" "i < 2 ^ 63"
  shows "Sscanf_d (sg @ ds @ c # rest) = Some i"
proof -
  from assms(2) obtain d ds' where ds: "ds = d # ds'" by (cases ds) auto
  then have d: "isDigit d" using assms(3) by simp
  have skip: "SkipSpace (sg @ ds @ c # rest) = Some (sg @ ds @ c # rest)"
    using assms(1) d unfolding ds by (auto simp add: SkipSpace_digit SkipSpace_sign)
  have sign: "accept_sign (sg @ ds @ c # rest) = (sg, ds @ c # rest)"
    using assms(1) d unfolding ds by (auto simp add: accept_sign_digit) (simp_all add: accept_sign_def)
  have tok: "takeWhile isDigit (ds @ c # rest) = ds"
    using assms(3,4) by (rule takeWhile_digits)
  show ?thesis
    using assms(2,5,6,7) by (simp add: Sscanf_d_def skip sign tok)
qed

lemma Sscanf_d_long_prefix: "Sscanf_d (''123'' @ replicate 70000 (CHR ''a'')) = Some 123"
proof -
  have r: "replicate 70000 (CHR ''a'') = CHR ''a'' # replicate 69999 (CHR ''a'')"
    by (simp add: replicate_Suc [symmetric] del: replicate_Suc)
  have v: "decimal ''123'' = 123" by (simp add: decimal_def)
  have "Sscanf_d ([] @ ''123'' @ CHR ''a'' # replicate 69999 (CHR ''a'')) = Some 123"
    by (rule Sscanf_d_prefix) (simp_all add: isDigit_def v)
  then show ?thesis by (simp only: r append_Nil)
qed

text \<open>
  C10, at a line of the claim's shape that is longer than 65536 bytes. The first field is
  \<^verbatim>\<open>123\<close> followed by 70000 letters \<^verbatim>\<open>a\<close>, the second is \<^verbatim>\<open>word\<close>: the scan of the
  field gives 123. Yet the scanner stops at the line with \<^verbatim>\<open>token too long\<close>, and
  \<^verbatim>\<open>loadDictionary\<close> returns that error and no map: nothing is stored under 123.
\<close>

theorem loadDictionary_long_prefix_line_counterexample:
  "Split (''123'' @ replicate 70000 (CHR ''a'') @ [CHR 0x09] @ ''word'') (CHR 0x09)
     = [''123'' @ replicate 70000 (CHR ''a''), ''word'']
   \<and> Sscanf_d (''123'' @ replicate 70000 (CHR ''a'')) = Some 123
   \<and> loadDictionary
        (\<lambda>name. Inr (''123'' @ replicate 70000 (CHR ''a'') @ [CHR 0x09] @ ''word'' @ [CHR 0x0A], None)) ''d.txt''
       = (None, Some ''bufio.Scanner: token too long'')"
proof -
  let ?field = "''123'' @ replicate 70000 (CHR ''a'')"
  let ?line = "?field @ CHR 0x09 # ''word''"
  have tab: "CHR 0x09 \<notin> set ?field" by simp
  have "Split (?field @ CHR 0x09 # ''word'') (CHR 0x09) = ?field # Split ''word'' (CHR 0x09)"
    using tab by (rule Split_cut)
  then have split: "Split (''123'' @ replicate 70000 (CHR ''a'') @ [CHR 0x09] @ ''word'') (CHR 0x09)
      = [''123'' @ replicate 70000 (CHR ''a''), ''word'']"
    by simp
  have nl: "CHR 0x0A \<notin> set ?line" by simp
  have "raw_lines (?line @ CHR 0x0A # []) = [?line]"
    by (simp only: raw_lines_cut [OF nl] raw_lines_Nil)
  then have lines: "raw_lines (''123'' @ replicate 70000 (CHR ''a'') @ [CHR 0x09] @ ''word'' @ [CHR 0x0A])
      = [?line]"
    by simp
  have "loadDictionary
        (\<lambda>name. Inr (''123'' @ replicate 70000 (CHR ''a'') @ [CHR 0x09] @ ''word'' @ [CHR 0x0A], None)) ''d.txt''
       = (None, Some ''bufio.Scanner: token too long'')"
    using lines by (simp add: loadDictionary_def Scanner_def)
  with split Sscanf_d_long_prefix show ?thesis by blast
qed

text \<open>
  C10, amended. Let the reading of the file end without error, let every line of the
  file be shorter than 65536 bytes, and let one of them, as the scanner delivers it, have
  at least two tab-separated fields, the first field being an optional sign and a
  non-empty run of decimal digits, whose value \<open>i\<close> fits Go's \<^verbatim>\<open>int\<close>, followed by a
  character that is not a digit and anything after it. Then the scan of the field
  succeeds with \<open>i\<close>, the line is not malformed, and \<^verbatim>\<open>loadDictionary\<close> returns, without
  error, the map that the lines after it make of the map of the lines before it with the
  second field stored under \<open>i\<close>; so the returned map sends \<open>i\<close> to the second field
  unless a later line stores the same key.
\<close>

theorem loadDictionary_integer_prefix:
  assumes "fs name = Inr (data, None)" "raw_lines data = xs @ line # ys"
    and "\<forall>l'\<in>set (xs @ line # ys). length l' < 65536"
    and "Split (dropCR line) (CHR 0x09) = field # word # others"
    and "field = sg @ ds @ c # rest"
    and "sg = [] \<or> sg = ''+'' \<or> sg = ''-''"
    and "ds \<noteq> []" "\<forall>d\<in>set ds. isDigit d" "\<not> isDigit c"
    and "i = (if sg = ''-'' then - decimal ds else decimal ds)"
    and "- (2 ^ 63) \<le> i" "i < 2 ^ 63"
  shows "Sscanf_d field = Some i
       \<and> \<not> malformed (dropCR line)
       \<and> loadDictionary fs name
           = (Some (loadDictionary_loop ((loadDictionary_loop Map.empty (map dropCR xs))(i \<mapsto> word))
                      (map dropCR ys)), None)
       \<and> ((\<forall>l'\<in>set ys. \<forall>w'. entry (dropCR l') \<noteq> Some (i, w')) \<longrightarrow>
            (\<exists>d. loadDictionary fs name = (Some d, None) \<and> d i = Some word))"
proof -
  have scan: "Sscanf_d field = Some i"
    unfolding assms(5) using assms(6-12) by (rule Sscanf_d_prefix)
  have e: "entry (dropCR line) = Some (i, word)"
    by (simp add: entry_def assms(4) scan)
  then have wf: "\<not> malformed (dropCR line)" by (simp add: malformed_entry)
  have short: "\<forall>l'\<in>set (raw_lines data). length l' < 65536" using assms(2,3) by simp
  have "loadDictionary fs name
      = (Some (loadDictionary_loop Map.empty (map dropCR xs @ dropCR line # map dropCR ys)), None)"
    using load_short_lines [of fs name, OF assms(1) short] assms(2) by simp
  also have "loadDictionary_loop Map.empty (map dropCR xs @ dropCR line # map dropCR ys)
      = loadDictionary_loop ((loadDictionary_loop Map.empty (map dropCR xs))(i \<mapsto> word)) (map dropCR ys)"
    by (simp only: loop_append loop_step e option.case prod.case)
  finally have load: "loadDictionary fs name
      = (Some (loadDictionary_loop ((loadDictionary_loop Map.empty (map dropCR xs))(i \<mapsto> word))
                 (map dropCR ys)), None)" .
  have kept: "(\<forall>l'\<in>set ys. \<forall>w'. entry (dropCR l') \<noteq> Some (i, w')) \<longrightarrow>
            (\<exists>d. loadDictionary fs name = (Some d, None) \<and> d i = Some word)"
  proof
    assume "\<forall>l'\<in>set ys. \<forall>w'. entry (dropCR l') \<noteq> Some (i, w')"
    with assms(1,2,3) e show "\<exists>d. loadDictionary fs name = (Some d, None) \<and> d i = Some word"
      by (rule stored_line [of fs name])
  qed
  from scan wf load kept show ?thesis by blast
qed

theorem loadDictionary_integer_prefix_witness:
  "raw_lines (''11111'' @ [CHR 0x09] @ ''apple'' @ [CHR 0x0A] @ ''123abc'' @ [CHR 0x09] @ ''word'' @ [CHR 0x0A])
     = [''11111'' @ [CHR 0x09] @ ''apple''] @ (''123abc'' @ [CHR 0x09] @ ''word'') # []
   \<and> Split (dropCR (''123abc'' @ [CHR 0x09] @ ''word'')) (CHR 0x09) = ''123abc'' # ''word'' # []
   \<and> ''123abc'' = [] @ ''123'' @ CHR ''a'' # ''bc''
   \<and> list_all isDigit ''123'' \<and> \<not> isDigit (CHR ''a'') \<and> decimal ''123'' = 123
   \<and> Sscanf_d ''123abc'' = Some 123
   \<and> \<not> malformed (dropCR (''123abc'' @ [CHR 0x09] @ ''word''))
   \<and> loadDictionary
        (\<lambda>n. Inr (''11111'' @ [CHR 0x09] @ ''apple'' @ [CHR 0x0A] @ ''123abc'' @ [CHR 0x09] @ ''word'' @ [CHR 0x0A], None))
        ''d.txt''
       = (Some [11111 \<mapsto> ''apple'', 123 \<mapsto> ''word''], None)"
proof -
  let ?data = "''11111'' @ [CHR 0x09] @ ''apple'' @ [CHR 0x0A] @ ''123abc'' @ [CHR 0x09] @ ''word'' @ [CHR 0x0A]"
  have h2: "raw_lines ?data = [''11111'' @ [CHR 0x09] @ ''apple''] @ (''123abc'' @ [CHR 0x09] @ ''word'') # []"
    by (simp add: raw_lines_def)
  have h3: "\<forall>l'\<in>set ([''11111'' @ [CHR 0x09] @ ''apple''] @ (''123abc'' @ [CHR 0x09] @ ''word'') # []).
      length l' < 65536"
    by simp
  have h4: "Split (dropCR (''123abc'' @ [CHR 0x09] @ ''word'')) (CHR 0x09) = ''123abc'' # ''word'' # []"
    by (simp add: dropCR_def)
  have h5: "''123abc'' = [] @ ''123'' @ CHR ''a'' # ''bc''" by simp
  have h6: "[] = [] \<or> [] = ''+'' \<or> [] = ''-''" by simp
  have h7: "''123'' \<noteq> []" by simp
  have h8: "\<forall>d\<in>set ''123''. isDigit d" by (simp add: isDigit_def)
  have h8': "list_all isDigit ''123''" by (simp add: isDigit_def)
  have h9: "\<not> isDigit (CHR ''a'')" by (simp add: isDigit_def)
  have v: "decimal ''123'' = 123" by (simp add: decimal_def)
  have h10: "(123::int) = (if [] = ''-'' then - decimal ''123'' else decimal ''123'')" by (simp add: v)
  have h11: "- (2 ^ 63) \<le> (123::int)" by simp
  have h12: "(123::int) < 2 ^ 63" by simp
  have scan: "Sscanf_d ''11111'' = Some 11111"
    by (simp add: Sscanf_d_def SkipSpace.simps accept_sign_def isDigit_def decimal_def isSpace_ascii_def)
  have before: "loadDictionary_loop Map.empty (map dropCR [''11111'' @ [CHR 0x09] @ ''apple''])
      = [11111 \<mapsto> ''apple'']"
    by (simp add: dropCR_def scan)
  show ?thesis
    using loadDictionary_integer_prefix [where fs = "\<lambda>n. Inr (?data, None)" and name = "''d.txt''"
        and data = ?data, OF _ h2 h3 h4 h5 h6 h7 h8 h9 h10 h11 h12] h2 h4 h8' h9 v before
    by simp
qed

section \<open>Runs of main\<close>


lemma main_loop_fails:
  "draws gen s ns t \<Longrightarrow> gen t = (Returns (x, Some err), t') \<Longrightarrow> length ns < k \<Longrightarrow>
   main_loop gen dict p sep k i s ws out =
     \<lparr>stdout = out @ number_lines dict i ns,
      stderr = [Printf (''Error generating Diceware number: %v'' @ [CHR 0x0A]) [S err]],
      ending = Exit 1\<rparr>"
proof (induction ns arbitrary: s i ws out k)
  case Nil
  then obtain j where "k = Suc j" by (cases k) auto
  with Nil show ?case by simp
next
  case (Cons n ns)
  from Cons.prems(3) obtain j where k: "k = Suc j" and j: "length ns < j" by (cases k) auto
  from Cons.prems(1) obtain u where g: "gen s = (Returns (n, None), u)" and rest: "draws gen u ns t"
    by (auto split: prod.splits outcome.splits option.splits)
  note IH = Cons.IH [OF rest Cons.prems(2) j]
  show ?case
  proof (cases dict)
    case None
    show ?thesis unfolding None by (simp add: k g IH [unfolded None])
  next
    case (Some d)
    show ?thesis unfolding Some
      by (cases "d n") (simp_all add: k g IH [unfolded Some])
  qed
qed









text \<open>
  C3, at a TPM that cannot be opened. With valid flags and \<^verbatim>\<open>tpm2.OpenTPM()\<close> failing,
  \<^verbatim>\<open>main\<close> of the TPM variant writes the message to standard error and returns: no number
  is generated, and the exit status is 0.
\<close>

theorem main_tpm_open_failure_exits_0:
  "main_tpm \<lparr>rolls = 10, dictFile = [], showPassphrase = False, separator = '' ''\<rparr> ''dwp''
     (\<lambda>name. Inl ''no such file'') (Inl ''open /dev/tpm0: permission denied'')
   = \<lparr>stdout = [],
      stderr = [Printf (''Failed to open TPM: %v'' @ [CHR 0x0A]) [S ''open /dev/tpm0: permission denied'']],
      ending = Exit 0\<rparr>"
  by (simp add: main_tpm_def)

section \<open>How the samplers spread their outputs\<close>

lemma card_residue_multiple:
  assumes "v < (m::nat)"
  shows "card {k. k < q * m \<and> k mod m = v} = q"
proof -
  have "{k. k < q * m \<and> k mod m = v} = (\<lambda>j. j * m + v) ` {..<q}"
  proof (intro set_eqI iffI)
    fix k assume "k \<in> {k. k < q * m \<and> k mod m = v}"
    then have k: "k < q * m" "k mod m = v" by simp_all
    have "k div m < q" using k(1) by (simp add: less_mult_imp_div_less)
    moreover have "k = (k div m) * m + v" using k(2) by (metis div_mult_mod_eq)
    ultimately show "k \<in> (\<lambda>j. j * m + v) ` {..<q}" by blast
  next
    fix k assume "k \<in> (\<lambda>j. j * m + v) ` {..<q}"
    then obtain j where j: "j < q" "k = j * m + v" by blast
    have "j * m + v < Suc j * m" using assms by simp
    also have "\<dots> \<le> q * m" using j(1) by (intro mult_le_mono1) simp
    finally have "k < q * m" using j(2) by simp
    moreover have "k mod m = v" using assms j(2) by simp
    ultimately show "k \<in> {k. k < q * m \<and> k mod m = v}" by simp
  qed
  moreover have "inj_on (\<lambda>j. j * m + v) {..<q}"
    using assms by (intro inj_onI) simp
  ultimately show ?thesis by (simp add: card_image)
qed

lemma card_residue:
  assumes "v < (m::nat)" "r < m"
  shows "card {k. k < q * m + r \<and> k mod m = v} = q + (if v < r then 1 else 0)"
proof -
  let ?A = "{k. k < q * m \<and> k mod m = v}"
  let ?B = "if v < r then {q * m + v} else {}"
  have split: "{k. k < q * m + r \<and> k mod m = v} = ?A \<union> ?B"
  proof (intro set_eqI iffI)
    fix k assume "k \<in> {k. k < q * m + r \<and> k mod m = v}"
    then have k: "k < q * m + r" "k mod m = v" by simp_all
    show "k \<in> ?A \<union> ?B"
    proof (cases "k < q * m")
      case True
      then show ?thesis using k by simp
    next
      case False
      then obtain j where j: "k = q * m + j" by (metis le_Suc_ex not_less)
      then have "j < r" using k(1) by simp
      moreover have "j = v" using k(2) j assms(2) \<open>j < r\<close> by simp
      ultimately show ?thesis using j by simp
    qed
  next
    fix k assume "k \<in> ?A \<union> ?B"
    then show "k \<in> {k. k < q * m + r \<and> k mod m = v}"
      using assms by (auto split: if_splits)
  qed
  have fin: "finite ?A" by simp
  have disj: "?A \<inter> ?B = {}" by auto
  have "card (?A \<union> ?B) = card ?A + card ?B"
    using fin disj by (intro card_Un_disjoint) auto
  then show ?thesis
    unfolding split using card_residue_multiple [OF assms(1), of q] by simp
qed

lemma card_doubled:
  assumes "0 < (M::nat)"
  shows "card {k. k < 2 * M \<and> P (k mod M)} = 2 * card {k. k < M \<and> P k}"
proof -
  let ?A = "{k. k < M \<and> P k}"
  let ?B = "(\<lambda>k. k + M) ` ?A"
  have split: "{k. k < 2 * M \<and> P (k mod M)} = ?A \<union> ?B"
  proof (intro set_eqI iffI)
    fix k assume "k \<in> {k. k < 2 * M \<and> P (k mod M)}"
    then have k: "k < 2 * M" "P (k mod M)" by simp_all
    show "k \<in> ?A \<union> ?B"
    proof (cases "k < M")
      case True
      then show ?thesis using k by simp
    next
      case False
      then obtain j where j: "k = j + M" by (metis le_Suc_ex not_less add.commute)
      then have "j < M" using k(1) by simp
      then have "P j" using k(2) j by simp
      then show ?thesis using j \<open>j < M\<close> by blast
    qed
  next
    fix k assume "k \<in> ?A \<union> ?B"
    then show "k \<in> {k. k < 2 * M \<and> P (k mod M)}" by auto
  qed
  have "finite ?A" by simp
  moreover have "?A \<inter> ?B = {}" by auto
  ultimately have "card (?A \<union> ?B) = card ?A + card ?B"
    by (intro card_Un_disjoint) auto
  moreover have "card ?B = card ?A" by (intro card_image) simp
  ultimately show ?thesis unfolding split by simp
qed


lemma card_word_set:
  "card {w :: 'a::len word. P (unat w)} = card {k. k < 2 ^ LENGTH('a) \<and> P k}"
proof -
  have "unat ` {w :: 'a word. P (unat w)} = {k. k < 2 ^ LENGTH('a) \<and> P k}"
  proof (intro set_eqI iffI)
    fix k assume "k \<in> unat ` {w :: 'a word. P (unat w)}"
    then show "k \<in> {k. k < 2 ^ LENGTH('a) \<and> P k}" by auto
  next
    fix k assume "k \<in> {k. k < 2 ^ LENGTH('a) \<and> P k}"
    then have k: "k < 2 ^ LENGTH('a)" "P k" by simp_all
    then have "unat (of_nat k :: 'a word) = k" by (simp add: unat_of_nat)
    with k(2) show "k \<in> unat ` {w :: 'a word. P (unat w)}"
      by (metis (mono_tags, lifting) image_eqI mem_Collect_eq)
  qed
  moreover have "inj_on unat {w :: 'a word. P (unat w)}"
    by (intro inj_onI) (simp add: word_unat_eq_iff)
  ultimately show ?thesis by (metis card_image)
qed

lemma unat_masked: "unat ((n::int32) AND 0x7FFFFFFF) = unat n mod 2 ^ 31"
proof -
  have "(0x7FFFFFFF :: int32) = mask 31" by (simp add: mask_eq_exp_minus_1)
  then have "n AND 0x7FFFFFFF = take_bit 31 n" by (simp add: take_bit_eq_mask)
  then show ?thesis by (simp add: unsigned_take_bit_eq take_bit_eq_mod unat_mod)
qed

lemma sint_small: "unat (w::int32) < 2 ^ 31 \<Longrightarrow> sint w = int (unat w)"
proof -
  assume w: "unat w < 2 ^ 31"
  have u: "uint w = int (unat w)" by simp
  have hi: "uint w < 2 ^ 31"
    unfolding u using w by (metis of_nat_less_iff of_nat_numeral of_nat_power)
  have lo: "0 \<le> uint w" by simp
  have "signed_take_bit 31 (uint w) = uint w"
  proof (rule signed_take_bit_int_eq_self)
    have "- (2 ^ 31) \<le> (0::int)" by simp
    then show "- (2 ^ 31) \<le> uint w" using lo by (rule order_trans)
    show "uint w < 2 ^ 31" by (rule hi)
  qed
  then show ?thesis by (simp add: sint_uint)
qed

lemma smod_nonneg: "0 \<le> (k::int) \<Longrightarrow> k smod 6 = k mod 6"
  by (simp add: signed_modulo_int_def sgn_if)

lemma masked_mod_6: "masked_mod n 6 = of_nat ((unat n mod 2 ^ 31) mod 6)"
proof -
  let ?k = "unat n mod 2 ^ 31"
  have "unat (n AND 0x7FFFFFFF) < 2 ^ 31" by (simp add: unat_masked)
  then have "sint (n AND 0x7FFFFFFF) = int (unat (n AND 0x7FFFFFFF))"
    by (rule sint_small)
  then have s: "sint (n AND 0x7FFFFFFF) = int ?k" by (simp only: unat_masked)
  have six: "sint (6 :: int32) = 6" by simp
  have "masked_mod n 6 = word_of_int (int ?k smod 6)"
    by (simp only: masked_mod_def s six)
  also have "int ?k smod 6 = int ?k mod 6" by (rule smod_nonneg) simp
  also have "int ?k mod 6 = int (?k mod 6)" by (simp add: zmod_int)
  also have "word_of_int (int (?k mod 6)) = (of_nat (?k mod 6) :: int32)"
    by (rule of_int_of_nat_eq)
  finally show ?thesis .
qed

lemma of_nat_eq_iff_small:
  "x < 6 \<Longrightarrow> unat (v::int32) < 6 \<Longrightarrow> (of_nat x = v) = (x = unat v)"
proof -
  assume x: "x < 6" and v: "unat v < 6"
  have "unat (of_nat x :: int32) = x" using x by (simp add: unat_of_nat)
  then show ?thesis by (metis word_unat_eq_iff)
qed

lemma masked_mod_6_eq:
  assumes "unat v < 6"
  shows "(masked_mod n 6 = v) = ((unat n mod 2 ^ 31) mod 6 = unat v)"
  unfolding masked_mod_6 using assms by (intro of_nat_eq_iff_small) simp_all

lemma sign_bit_clear: "(n AND 0x7FFFFFFF = n) = (unat n < 2 ^ 31)" for n :: int32
proof
  assume "n AND 0x7FFFFFFF = n"
  then have "unat n = unat n mod 2 ^ 31" using unat_masked [of n] by simp
  then show "unat n < 2 ^ 31" by (metis mod_less_divisor zero_less_numeral zero_less_power)
next
  assume "unat n < 2 ^ 31"
  then have "unat (n AND 0x7FFFFFFF) = unat n" by (simp add: unat_masked)
  then show "n AND 0x7FFFFFFF = n" by (simp add: word_unat_eq_iff)
qed

lemma preimages_crypto_nat:
  assumes "unat v < 6"
  shows "preimages_crypto 6 v = {n. (unat n mod 2 ^ 31) mod 6 = unat v}"
  by (simp add: preimages_crypto_def masked_mod_6_eq [OF assms])

lemma masked_preimages_nat:
  assumes "unat v < 6"
  shows "masked_preimages 6 v = {n. unat n < 2 ^ 31 \<and> unat n mod 6 = unat v}"
proof -
  have "(n AND 0x7FFFFFFF = n \<and> masked_mod n 6 = v) = (unat n < 2 ^ 31 \<and> unat n mod 6 = unat v)" for n
    using sign_bit_clear [of n] masked_mod_6_eq [OF assms, of n] by auto
  then show ?thesis by (simp add: masked_preimages_def)
qed

lemma count_below_2_31:
  assumes "c < 6"
  shows "card {k::nat. k < 2 ^ 31 \<and> k mod 6 = c} = 357913941 + (if c < 2 then 1 else 0)"
proof -
  have "(2::nat) ^ 31 = 357913941 * 6 + 2" by simp
  then show ?thesis
    using card_residue [of c 6 2 357913941] assms by simp
qed

lemma card_masked_preimages:
  assumes "unat v < 6"
  shows "card (masked_preimages 6 v) = 357913941 + (if unat v < 2 then 1 else 0)"
proof -
  have "card (masked_preimages 6 v) = card {k. k < 2 ^ 32 \<and> (k < 2 ^ 31 \<and> k mod 6 = unat v)}"
    unfolding masked_preimages_nat [OF assms]
    using card_word_set [where 'a = 32 and P = "\<lambda>k. k < 2 ^ 31 \<and> k mod 6 = unat v"] by simp
  also have "{k::nat. k < 2 ^ 32 \<and> (k < 2 ^ 31 \<and> k mod 6 = unat v)} = {k. k < 2 ^ 31 \<and> k mod 6 = unat v}"
    by auto
  finally show ?thesis using count_below_2_31 [OF assms] by simp
qed

lemma card_preimages_crypto:
  assumes "unat v < 6"
  shows "card (preimages_crypto 6 v) = 2 * (357913941 + (if unat v < 2 then 1 else 0))"
proof -
  have "card (preimages_crypto 6 v) = card {k. k < 2 ^ 32 \<and> (k mod 2 ^ 31) mod 6 = unat v}"
    unfolding preimages_crypto_nat [OF assms]
    using card_word_set [where 'a = 32 and P = "\<lambda>k. (k mod 2 ^ 31) mod 6 = unat v"] by simp
  also have "\<dots> = card {k. k < 2 * 2 ^ 31 \<and> (k mod 2 ^ 31) mod 6 = unat v}" by simp
  also have "\<dots> = 2 * card {k::nat. k < 2 ^ 31 \<and> k mod 6 = unat v}"
    by (rule card_doubled) simp
  finally show ?thesis using count_below_2_31 [OF assms] by simp
qed


lemma card_masked_values: "card {n :: int32. n AND 0x7FFFFFFF = n} = 2 ^ 31"
proof -
  have "card {n :: int32. n AND 0x7FFFFFFF = n} = card {n :: int32. unat n < 2 ^ 31}"
    by (simp add: sign_bit_clear)
  also have "\<dots> = card {k::nat. k < 2 ^ 32 \<and> k < 2 ^ 31}"
    using card_word_set [where 'a = 32 and P = "\<lambda>k. k < 2 ^ 31"] by simp
  also have "{k::nat. k < 2 ^ 32 \<and> k < 2 ^ 31} = {..<2 ^ 31}" by auto
  finally show ?thesis by simp
qed

lemma masked_mod_range:
  assumes "0 < sint mx"
  shows "0 \<le> sint (masked_mod n mx) \<and> sint (masked_mod n mx) < sint mx"
proof -
  let ?k = "sint (n AND 0x7FFFFFFF)"
  let ?r = "?k mod sint mx"
  have "unat (n AND 0x7FFFFFFF) < 2 ^ 31" by (simp add: unat_masked)
  then have "?k = int (unat (n AND 0x7FFFFFFF))" by (rule sint_small)
  then have k: "0 \<le> ?k" by simp
  have smod: "?k smod sint mx = ?r"
    using k assms by (simp add: signed_modulo_int_def sgn_if)
  have lo: "0 \<le> ?r" using assms by simp
  have hi: "?r < sint mx" using assms by simp
  have "sint mx < 2 ^ 31" using sint_lt [of mx] by simp
  with hi have hi': "?r < 2 ^ 31" by (rule less_trans)
  have "signed_take_bit 31 ?r = ?r"
  proof (rule signed_take_bit_int_eq_self)
    have "- (2 ^ 31) \<le> (0::int)" by simp
    then show "- (2 ^ 31) \<le> ?r" using lo by (rule order_trans)
    show "?r < 2 ^ 31" by (rule hi')
  qed
  then have "sint (word_of_int ?r :: int32) = ?r" by (simp add: sint_sbintrunc')
  then show ?thesis using lo hi by (simp add: masked_mod_def smod)
qed

text \<open>
  C4. The mask leaves the \<open>2^31\<close> words with a clear sign bit, and \<open>2^31 mod 6 = 2\<close>.
  Of these words, 357913942 are mapped by the remainder modulo 6 to the output 0 and as
  many to 1, but only 357913941 to each of 2, 3, 4 and 5.
\<close>

theorem masked_modulo_biased_at_6:
  "card {n :: int32. n AND 0x7FFFFFFF = n} = 2 ^ 31
   \<and> (2 :: int) ^ 31 mod 6 = 2
   \<and> card (masked_preimages 6 0) = 357913942 \<and> card (masked_preimages 6 1) = 357913942
   \<and> card (masked_preimages 6 2) = 357913941 \<and> card (masked_preimages 6 3) = 357913941
   \<and> card (masked_preimages 6 4) = 357913941 \<and> card (masked_preimages 6 5) = 357913941
   \<and> card (masked_preimages 6 0) \<noteq> card (masked_preimages 6 5)"
  using card_masked_preimages [of 0] card_masked_preimages [of 1] card_masked_preimages [of 2]
    card_masked_preimages [of 3] card_masked_preimages [of 4] card_masked_preimages [of 5]
  by (simp add: card_masked_values)

text \<open>
  C1, at \<open>max = 6\<close> in the crypto/rand variant. Every 32-bit word read from the source is
  accepted. 715827884 of them give the output 0, and as many the output 1, but only
  715827882 give each of 2, 3, 4 and 5: the outputs are not equiprobable.
\<close>

theorem secureRandInt_crypto_bias_at_6:
  "card (preimages_crypto 6 0) = 715827884 \<and> card (preimages_crypto 6 1) = 715827884
   \<and> card (preimages_crypto 6 2) = 715827882 \<and> card (preimages_crypto 6 3) = 715827882
   \<and> card (preimages_crypto 6 4) = 715827882 \<and> card (preimages_crypto 6 5) = 715827882"
  using card_preimages_crypto [of 0] card_preimages_crypto [of 1] card_preimages_crypto [of 2]
    card_preimages_crypto [of 3] card_preimages_crypto [of 4] card_preimages_crypto [of 5]
  by simp

lemma ucast_byte_eq: "((ucast (x::byte) :: int32) = v) = (unat x = unat v)"
proof -
  have "unat x < 2 ^ 8" using unsigned_less [of x, where 'a = nat] by simp
  then have "unat x < 2 ^ 32" by simp
  then have "unat (ucast x :: int32) = unat x"
    by (simp add: unsigned_ucast_eq take_bit_nat_eq_self)
  then show ?thesis by (metis word_unat_eq_iff)
qed

text \<open>
  The TPM variant has no such bias: for \<open>max\<close> in 1..255 every output \<open>v\<close> in \<open>[0, max)\<close>
  is the image of the same number of accepted bytes, \<open>255 div max\<close>.
\<close>

lemma secureRandInt_tpm_unbiased:
  assumes "1 \<le> sint mx" "sint mx \<le> 255" "0 \<le> sint v" "sint v < sint mx"
  shows "card (preimages_tpm mx v) = nat (255 div sint mx)"
proof -
  let ?m = "ucast mx :: byte"
  define M where "M = unat ?m"
  define c where "c = unat v"
  have m: "uint ?m = sint mx" using assms(1,2) by (rule uint8_of_max)
  then have M: "int M = sint mx" by (simp add: M_def)
  have Mpos: "0 < M" using M assms(1) by linarith
  have "uint v = sint v mod 2 ^ 32" by (simp add: uint_sint take_bit_eq_mod)
  then have "uint v = sint v" using assms by simp
  then have c: "int c = sint v" by (simp add: c_def)
  have cM: "c < M" using c M assms(4) by linarith
  have mv: "unat (255 - 255 mod ?m) = 255 div M * M"
  proof -
    have "int (unat (255 - 255 mod ?m)) = 255 - 255 mod int M"
      using maxValid_uint [of ?m] by (simp add: M_def)
    also have "\<dots> = int (255 - 255 mod M)" by (simp add: of_nat_diff zmod_int)
    finally have "unat (255 - 255 mod ?m) = 255 - 255 mod M" by linarith
    then show ?thesis by (simp add: minus_mod_eq_div_mult)
  qed
  have "(\<not> 255 - 255 mod ?m \<le> b \<and> ucast (b mod ?m) = v)
      = (unat b < 255 div M * M \<and> unat b mod M = c)" for b :: byte
    by (simp add: word_le_nat_alt not_le mv ucast_byte_eq unat_mod M_def c_def)
  then have "preimages_tpm mx v = {b. unat b < 255 div M * M \<and> unat b mod M = c}"
    by (simp add: preimages_tpm_def)
  then have "card (preimages_tpm mx v) = card {k. k < 2 ^ 8 \<and> (k < 255 div M * M \<and> k mod M = c)}"
    using card_word_set [where 'a = 8 and P = "\<lambda>k. k < 255 div M * M \<and> k mod M = c"] by simp
  also have "{k. k < 2 ^ 8 \<and> (k < 255 div M * M \<and> k mod M = c)} = {k. k < 255 div M * M \<and> k mod M = c}"
  proof -
    have le: "255 div M * M \<le> 255" by simp
    have "k < 2 ^ 8" if "k < 255 div M * M" for k
    proof -
      from that le have "k < 255" by (rule less_le_trans)
      then show ?thesis by simp
    qed
    then show ?thesis by blast
  qed
  also have "card \<dots> = 255 div M" using cM by (rule card_residue_multiple)
  also have "\<dots> = nat (255 div sint mx)"
    using M by (metis nat_int of_nat_numeral zdiv_int)
  finally show ?thesis .
qed

end
